theory Spec2Isabelle
  imports Main "HOL-Library.Sublist" "HOL-Library.Multiset"
begin

section \<open>Strings\<close>

text \<open>
  A JavaScript string is modelled as a \<open>string\<close> (a list of 8-bit characters). The model
  follows the source on ASCII text: case mapping changes the letters A-Z and a-z only, and
  white space is the ASCII white space that \<open>String.prototype.trim\<close> removes (TAB, LF, VT,
  FF, CR, SPACE). Characters outside ASCII are carried through unchanged.
\<close>

definition upperLetters :: string where
  "upperLetters = ''ABCDEFGHIJKLMNOPQRSTUVWXYZ''"

definition lowerLetters :: string where
  "lowerLetters = ''abcdefghijklmnopqrstuvwxyz''"

definition toLowerChar :: "char \<Rightarrow> char" where
  "toLowerChar c = (case map_of (zip upperLetters lowerLetters) c of None \<Rightarrow> c | Some l \<Rightarrow> l)"

definition toUpperChar :: "char \<Rightarrow> char" where
  "toUpperChar c = (case map_of (zip lowerLetters upperLetters) c of None \<Rightarrow> c | Some u \<Rightarrow> u)"

definition toLowerCase :: "string \<Rightarrow> string" where
  "toLowerCase s = map toLowerChar s"

definition toUpperCase :: "string \<Rightarrow> string" where
  "toUpperCase s = map toUpperChar s"

text \<open>\<open>s.includes(t)\<close>: \<open>t\<close> occurs in \<open>s\<close> as a contiguous run.\<close>

fun includes_str :: "string \<Rightarrow> string \<Rightarrow> bool" where
  "includes_str [] t = (t = [])"
| "includes_str (c # cs) t = (prefix t (c # cs) \<or> includes_str cs t)"

definition isWhiteSpace :: "char \<Rightarrow> bool" where
  "isWhiteSpace c = (c \<in> set [CHR 0x09, CHR 0x0A, CHR 0x0B, CHR 0x0C, CHR 0x0D, CHR 0x20])"

definition trim :: "string \<Rightarrow> string" where
  "trim s = rev (dropWhile isWhiteSpace (rev (dropWhile isWhiteSpace s)))"

text \<open>\<open>s.split(sep)\<close> for a one-character separator; the empty string gives one empty part.\<close>

fun split_chr :: "char \<Rightarrow> string \<Rightarrow> string list" where
  "split_chr sep [] = [[]]"
| "split_chr sep (c # cs) =
     (if c = sep then [] # split_chr sep cs
      else (case split_chr sep cs of [] \<Rightarrow> [[c]] | f # fs \<Rightarrow> (c # f) # fs))"

section \<open>Data model\<close>

datatype Status = InProgress | Closed

record Complaint =
  id_c :: string
  plannedDate :: string
  step :: string
  stepCode :: string
  fullName :: string
  signature :: string
  contact :: string
  country :: string
  improvementPhotoUrl :: string
  statusLink :: string
  notes_c :: string
  equipmentName :: string
  status :: Status


section \<open>Status classifier\<close>

definition getStatus :: "string \<Rightarrow> Status" where
  "getStatus step_v =
     (if step_v = [] then InProgress
      else if includes_str (toLowerCase step_v) ''complete'' then Closed
      else InProgress)"

section \<open>Row parser and schema mappers\<close>

definition quoteCount :: "string \<Rightarrow> nat" where
  "quoteCount s = length (filter (\<lambda>c. c = CHR 0x22) s)"

text \<open>
  \<open>line.split(/,(?=(?:(?:[^"]*"){2})*[^"]*$)/)\<close>: a comma separates two fields when the
  rest of the line after it holds an even number of double quotes.
\<close>

fun splitFields :: "string \<Rightarrow> string list" where
  "splitFields [] = [[]]"
| "splitFields (c # cs) =
     (if c = CHR '','' \<and> even (quoteCount cs) then [] # splitFields cs
      else (case splitFields cs of [] \<Rightarrow> [[c]] | f # fs \<Rightarrow> (c # f) # fs))"

text \<open>\<open>v.replace(/^"|"$/g, '')\<close>: one leading quote goes, then one trailing quote.\<close>

definition stripQuotes :: "string \<Rightarrow> string" where
  "stripQuotes s =
     (let s1 = (case s of [] \<Rightarrow> [] | c # cs \<Rightarrow> if c = CHR 0x22 then cs else s)
      in if s1 \<noteq> [] \<and> last s1 = CHR 0x22 then butlast s1 else s1)"

definition cleanValues :: "string \<Rightarrow> string list" where
  "cleanValues line = map (\<lambda>v. stripQuotes (trim v)) (splitFields line)"

text \<open>\<open>xs[i]\<close> is \<open>undefined\<close> (here \<open>None\<close>) out of range; \<open>v || d\<close> takes \<open>d\<close> when
  \<open>v\<close> is \<open>undefined\<close> or the empty string.\<close>

definition elem :: "string list \<Rightarrow> nat \<Rightarrow> string option" where
  "elem xs i = (if i < length xs then Some (xs ! i) else None)"

fun truthy :: "string option \<Rightarrow> bool" where
  "truthy None = False"
| "truthy (Some v) = (v \<noteq> [])"

definition or_else :: "string option \<Rightarrow> string \<Rightarrow> string" where
  "or_else v d = (if truthy v then the v else d)"

definition dataLines :: "string \<Rightarrow> string list" where
  "dataLines csvText = drop 1 (split_chr (CHR 0x0A) (trim csvText))"

definition parseGoogleSheetCSV_line :: "string \<Rightarrow> Complaint option" where
  "parseGoogleSheetCSV_line line =
     (let cv = cleanValues line in
      if length cv < 1 \<or> \<not> truthy (elem cv 0) then None
      else
        let step_v = or_else (elem cv 3) [] in
        Some \<lparr> id_c = or_else (elem cv 0) [],
               plannedDate = or_else (elem cv 1) [],
               step = step_v,
               stepCode = or_else (elem cv 5) [],
               fullName = or_else (elem cv 6) [],
               signature = or_else (elem cv 8) [],
               contact = or_else (elem cv 7) [],
               country = or_else (elem cv 9) [],
               improvementPhotoUrl = or_else (elem cv 10) [],
               statusLink = or_else (elem cv 11) [],
               notes_c = or_else (elem cv 14) ''N/A'',
               equipmentName = or_else (elem cv 15) [],
               status = getStatus step_v \<rparr>)"

definition parseCompletedGoogleSheetCSV_line :: "string \<Rightarrow> Complaint option" where
  "parseCompletedGoogleSheetCSV_line line =
     (let cv = cleanValues line in
      if length cv < 1 \<or> \<not> truthy (elem cv 0) then None
      else
        Some \<lparr> id_c = or_else (elem cv 0) [],
               plannedDate = [],
               step = ''Closed'',
               stepCode = [],
               fullName = or_else (elem cv 1) [],
               signature = or_else (elem cv 2) [],
               contact = [],
               country = or_else (elem cv 3) [],
               improvementPhotoUrl = or_else (elem cv 5) [],
               statusLink = [],
               notes_c = or_else (elem cv 6) ''N/A'',
               equipmentName = or_else (elem cv 4) [],
               status = Closed \<rparr>)"

text \<open>The filter \<open>complaint !== null && !!complaint.id\<close>.\<close>

fun keepComplaint :: "Complaint option \<Rightarrow> bool" where
  "keepComplaint None = False"
| "keepComplaint (Some c) = (id_c c \<noteq> [])"

definition parseGoogleSheetCSV :: "string \<Rightarrow> Complaint list" where
  "parseGoogleSheetCSV csvText =
     map the (filter keepComplaint (map parseGoogleSheetCSV_line (dataLines csvText)))"

definition parseCompletedGoogleSheetCSV :: "string \<Rightarrow> Complaint list" where
  "parseCompletedGoogleSheetCSV csvText =
     map the (filter keepComplaint (map parseCompletedGoogleSheetCSV_line (dataLines csvText)))"

section \<open>Reconciler\<close>

definition reconcile :: "Complaint list \<Rightarrow> Complaint list \<Rightarrow> Complaint list" where
  "reconcile parsedTasks parsedCompletedTasks =
     (let taskIds = set (map id_c parsedTasks);
          uniqueCompletedTasks = filter (\<lambda>t. id_c t \<notin> taskIds) parsedCompletedTasks
      in parsedTasks @ uniqueCompletedTasks)"

datatype error = SheetNotPublic

text \<open>The body of \<open>fetchData\<close> from the two response texts on: the content check, the two
  parsers and the reconciliation. \<open>Inl\<close> is the thrown error.\<close>

definition fetchData :: "string \<Rightarrow> string \<Rightarrow> error + Complaint list" where
  "fetchData tasksCsvText completedCsvText =
     (if includes_str tasksCsvText ''gid must be a number'' then Inl SheetNotPublic
      else Inr (reconcile (parseGoogleSheetCSV tasksCsvText)
                          (parseCompletedGoogleSheetCSV completedCsvText)))"

section \<open>Title case and the filter predicates\<close>













section \<open>Numbers and \<open>parseInt\<close>\<close>











section \<open>Dates\<close>


definition DaysInYear :: "int \<Rightarrow> int" where
  "DaysInYear y =
     (if y mod 4 \<noteq> 0 then 365 else if y mod 100 \<noteq> 0 then 366
      else if y mod 400 \<noteq> 0 then 365 else 366)"


definition DayFromYear :: "int \<Rightarrow> int" where
  "DayFromYear y =
     365 * (y - 1970) + (y - 1969) div 4 - (y - 1901) div 100 + (y - 1601) div 400"

text \<open>A year has 365 or 366 days, so the day numbers of the years increase; the search
  for the year of a day, downwards from a year that is late enough, ends for this reason.\<close>

lemma div_succ:
  fixes x n :: int
  assumes "0 < n"
  shows "(x + 1) div n = x div n + (if (x + 1) mod n = 0 then 1 else 0)"
proof -
  define q r where "q = x div n" and "r = x mod n"
  have x: "x = n * q + r" and r: "0 \<le> r" "r < n"
    using assms by (auto simp: q_def r_def)
  show ?thesis
  proof (cases "r + 1 = n")
    case True
    then have e: "x + 1 = n * (q + 1) + 0" using x by (simp add: algebra_simps)
    have "(x + 1) div n = q + 1"
      by (rule int_div_pos_eq [OF e]) (use assms in auto)
    moreover have "(x + 1) mod n = 0"
      by (rule int_mod_pos_eq [OF e]) (use assms in auto)
    ultimately show ?thesis by (simp add: q_def)
  next
    case False
    then have b: "0 \<le> r + 1" "r + 1 < n" using r by auto
    have e: "x + 1 = n * q + (r + 1)" using x by simp
    have "(x + 1) div n = q"
      by (rule int_div_pos_eq [OF e b])
    moreover have "(x + 1) mod n = r + 1"
      by (rule int_mod_pos_eq [OF e b])
    ultimately show ?thesis using r by (simp add: q_def)
  qed
qed

lemma dvd_shift: "(k::int) dvd c \<Longrightarrow> (y - c) mod k = 0 \<longleftrightarrow> y mod k = 0"
  by (simp add: mod_eq_0_iff_dvd dvd_diff_left_iff)

lemma step4: "((y::int) - 1968) div 4 = (y - 1969) div 4 + (if y mod 4 = 0 then 1 else 0)"
  using div_succ [of 4 "y - 1969"] dvd_shift [of 4 1968 y] by (simp add: algebra_simps)

lemma step100: "((y::int) - 1900) div 100 = (y - 1901) div 100 + (if y mod 100 = 0 then 1 else 0)"
  using div_succ [of 100 "y - 1901"] dvd_shift [of 100 1900 y] by (simp add: algebra_simps)

lemma step400: "((y::int) - 1600) div 400 = (y - 1601) div 400 + (if y mod 400 = 0 then 1 else 0)"
  using div_succ [of 400 "y - 1601"] dvd_shift [of 400 1600 y] by (simp add: algebra_simps)

lemma m100_4: "(y::int) mod 100 = 0 \<Longrightarrow> y mod 4 = 0"
proof -
  assume "y mod 100 = 0"
  then have "100 dvd y" by (simp add: mod_eq_0_iff_dvd)
  moreover have "(4::int) dvd 100" by simp
  ultimately have "4 dvd y" by (rule dvd_trans [rotated])
  then show ?thesis by (simp add: mod_eq_0_iff_dvd)
qed

lemma m400_100: "(y::int) mod 400 = 0 \<Longrightarrow> y mod 100 = 0"
proof -
  assume "y mod 400 = 0"
  then have "400 dvd y" by (simp add: mod_eq_0_iff_dvd)
  moreover have "(100::int) dvd 400" by simp
  ultimately have "100 dvd y" by (rule dvd_trans [rotated])
  then show ?thesis by (simp add: mod_eq_0_iff_dvd)
qed

lemma DayFromYear_Suc: "DayFromYear (y + 1) = DayFromYear y + DaysInYear y"
  using m100_4 [of y] m400_100 [of y]
  by (simp add: DayFromYear_def DaysInYear_def step4 step100 step400)

lemma DaysInYear_cases: "DaysInYear y = 365 \<or> DaysInYear y = 366"
  by (simp add: DaysInYear_def)


















section \<open>Sorting\<close>











section \<open>Auxiliary notions and sample inputs\<close>







text \<open>A primary and a secondary extract, each one header line followed by data lines.\<close>

definition ex_tasks_csv :: string where
  "ex_tasks_csv = ''id,date,x,step\<newline>1,01/01/24,,Task Completed\<newline>2,31/02/24,,Open''"

definition ex_completed_csv :: string where
  "ex_completed_csv = ''id,name\<newline>1,Ann\<newline>7,Bob''"



section \<open>Substring search and the classifier\<close>

lemma includes_str_sublist: "includes_str s t = sublist t s"
  by (induction s) (auto simp: sublist_Cons_right)

lemma map_split3:
  assumes "map f s = ps @ t @ ss"
  shows "\<exists>pre mid post. s = pre @ mid @ post \<and> map f mid = t"
proof -
  from assms obtain pre rest where s: "s = pre @ rest" and r: "map f rest = t @ ss"
    by (metis map_eq_append_conv)
  from r obtain mid post where "rest = mid @ post" and "map f mid = t"
    by (metis map_eq_append_conv)
  with s show ?thesis by blast
qed

lemma includes_lower_iff:
  "includes_str (toLowerCase s) t \<longleftrightarrow> (\<exists>pre mid post. s = pre @ mid @ post \<and> toLowerCase mid = t)"
proof
  assume "includes_str (toLowerCase s) t"
  then obtain ps ss where "map toLowerChar s = ps @ t @ ss"
    unfolding includes_str_sublist sublist_def toLowerCase_def by blast
  then show "\<exists>pre mid post. s = pre @ mid @ post \<and> toLowerCase mid = t"
    unfolding toLowerCase_def by (rule map_split3)
next
  assume "\<exists>pre mid post. s = pre @ mid @ post \<and> toLowerCase mid = t"
  then obtain pre mid post where "s = pre @ mid @ post" and "toLowerCase mid = t" by blast
  then have "toLowerCase s = toLowerCase pre @ t @ toLowerCase post"
    by (simp add: toLowerCase_def)
  then show "includes_str (toLowerCase s) t"
    unfolding includes_str_sublist sublist_def by blast
qed

lemma getStatus_Closed_iff:
  "getStatus s = Closed \<longleftrightarrow> (\<exists>pre mid post. s = pre @ mid @ post \<and> toLowerCase mid = ''complete'')"
proof (cases "s = []")
  case True
  then show ?thesis by (auto simp: getStatus_def toLowerCase_def)
next
  case False
  then show ?thesis by (simp add: getStatus_def includes_lower_iff)
qed

section \<open>Rows and the two mappings\<close>

lemma splitFields_ne: "splitFields l \<noteq> []"
  by (induction l) (auto split: list.splits)

lemma cleanValues_ne: "cleanValues l \<noteq> []"
  by (simp add: cleanValues_def splitFields_ne)


lemma elem0: "elem (cleanValues l) 0 = Some (hd (cleanValues l))"
  using cleanValues_ne [of l] by (cases "cleanValues l") (auto simp: elem_def)


lemma primary_line_None: "parseGoogleSheetCSV_line l = None \<longleftrightarrow> hd (cleanValues l) = []"
  using cleanValues_ne [of l]
  by (simp add: parseGoogleSheetCSV_line_def Let_def elem0)

lemma primary_line_id:
  assumes "parseGoogleSheetCSV_line l = Some c"
  shows "id_c c = hd (cleanValues l) \<and> id_c c \<noteq> []"
proof -
  from assms have ne: "hd (cleanValues l) \<noteq> []"
    using primary_line_None [of l] by auto
  from assms have "id_c c = or_else (elem (cleanValues l) 0) []"
    by (auto simp: parseGoogleSheetCSV_line_def Let_def split: if_splits)
  with ne show ?thesis by (simp add: elem0 or_else_def)
qed

lemma primary_line_keep: "keepComplaint (parseGoogleSheetCSV_line l) \<longleftrightarrow> hd (cleanValues l) \<noteq> []"
  using primary_line_None [of l] primary_line_id [of l]
  by (cases "parseGoogleSheetCSV_line l") auto

lemma completed_line_None: "parseCompletedGoogleSheetCSV_line l = None \<longleftrightarrow> hd (cleanValues l) = []"
  using cleanValues_ne [of l]
  by (simp add: parseCompletedGoogleSheetCSV_line_def Let_def elem0)

lemma completed_line_id:
  assumes "parseCompletedGoogleSheetCSV_line l = Some c"
  shows "id_c c = hd (cleanValues l) \<and> id_c c \<noteq> []"
proof -
  from assms have ne: "hd (cleanValues l) \<noteq> []"
    using completed_line_None [of l] by auto
  from assms have "id_c c = or_else (elem (cleanValues l) 0) []"
    by (auto simp: parseCompletedGoogleSheetCSV_line_def Let_def split: if_splits)
  with ne show ?thesis by (simp add: elem0 or_else_def)
qed

lemma completed_line_keep: "keepComplaint (parseCompletedGoogleSheetCSV_line l) \<longleftrightarrow> hd (cleanValues l) \<noteq> []"
  using completed_line_None [of l] completed_line_id [of l]
  by (cases "parseCompletedGoogleSheetCSV_line l") auto

lemma parse_primary_eq:
  "parseGoogleSheetCSV t = map (\<lambda>l. the (parseGoogleSheetCSV_line l)) (filter (\<lambda>l. hd (cleanValues l) \<noteq> []) (dataLines t))"
  by (simp add: parseGoogleSheetCSV_def filter_map o_def primary_line_keep)

lemma parse_completed_eq:
  "parseCompletedGoogleSheetCSV t = map (\<lambda>l. the (parseCompletedGoogleSheetCSV_line l)) (filter (\<lambda>l. hd (cleanValues l) \<noteq> []) (dataLines t))"
  by (simp add: parseCompletedGoogleSheetCSV_def filter_map o_def completed_line_keep)

lemma primary_mem: "r \<in> set (parseGoogleSheetCSV t) \<Longrightarrow> \<exists>l \<in> set (dataLines t). parseGoogleSheetCSV_line l = Some r"
  by (auto simp: parse_primary_eq primary_line_None [symmetric])

lemma completed_mem: "r \<in> set (parseCompletedGoogleSheetCSV t) \<Longrightarrow> \<exists>l \<in> set (dataLines t). parseCompletedGoogleSheetCSV_line l = Some r"
  by (auto simp: parse_completed_eq completed_line_None [symmetric])

lemma primary_line_status: "parseGoogleSheetCSV_line l = Some r \<Longrightarrow> status r = getStatus (step r)"
  by (auto simp: parseGoogleSheetCSV_line_def Let_def split: if_splits)

lemma completed_line_status: "parseCompletedGoogleSheetCSV_line l = Some r \<Longrightarrow> step r = ''Closed'' \<and> status r = Closed"
  by (auto simp: parseCompletedGoogleSheetCSV_line_def Let_def split: if_splits)







section \<open>Status of the records of the unified collection\<close>

text \<open>
  C1 as stated fails: a record of the secondary mapping has step \<open>Closed\<close> and status
  closed, while the classifier sends the step \<open>Closed\<close> to in-progress.
\<close>

theorem secondary_status_not_classified:
  "fetchData ''id'' ''id\<newline>7'' =
     Inr [\<lparr>id_c = ''7'', plannedDate = [], step = ''Closed'', stepCode = [], fullName = [],
           signature = [], contact = [], country = [], improvementPhotoUrl = [],
           statusLink = [], notes_c = ''N/A'', equipmentName = [], status = Closed\<rparr>]
   \<and> getStatus ''Closed'' = InProgress"
  by code_simp

lemma set_reconcile: "set (reconcile P S) \<subseteq> set P \<union> set S"
  by (auto simp: reconcile_def)

text \<open>
  C1, amended. Every record of the unified collection either comes from the primary mapping,
  and then its status is the classifier's value of its step (closed exactly when the step
  contains \<open>complete\<close> up to letter case, in-progress otherwise, the empty step included),
  or comes from the secondary mapping, and then its step is the literal \<open>Closed\<close> and its
  status is closed without regard to the classifier.
\<close>

theorem unified_status:
  assumes "fetchData t1 t2 = Inr cs" and "r \<in> set cs"
  shows "(r \<in> set (parseGoogleSheetCSV t1) \<and> status r = getStatus (step r) \<and>
          (status r = Closed \<longleftrightarrow> (\<exists>pre mid post. step r = pre @ mid @ post \<and> toLowerCase mid = ''complete'')) \<and>
          (status r = InProgress \<longleftrightarrow> \<not> (\<exists>pre mid post. step r = pre @ mid @ post \<and> toLowerCase mid = ''complete'')))
       \<or> (r \<in> set (parseCompletedGoogleSheetCSV t2) \<and> step r = ''Closed'' \<and> status r = Closed)"
proof -
  from assms have "r \<in> set (parseGoogleSheetCSV t1) \<or> r \<in> set (parseCompletedGoogleSheetCSV t2)"
    using set_reconcile by (auto simp: fetchData_def split: if_splits)
  then show ?thesis
  proof
    assume p: "r \<in> set (parseGoogleSheetCSV t1)"
    then have s: "status r = getStatus (step r)"
      using primary_mem primary_line_status by blast
    have "status r = Closed \<longleftrightarrow> (\<exists>pre mid post. step r = pre @ mid @ post \<and> toLowerCase mid = ''complete'')"
      unfolding s by (rule getStatus_Closed_iff)
    moreover have "status r = InProgress \<longleftrightarrow> status r \<noteq> Closed"
      by (cases "status r") auto
    ultimately show ?thesis using p s by blast
  next
    assume "r \<in> set (parseCompletedGoogleSheetCSV t2)"
    then show ?thesis
      using completed_mem completed_line_status by blast
  qed
qed

theorem unified_status_witness:
  "fetchData ex_tasks_csv ex_completed_csv = Inr (parseGoogleSheetCSV ex_tasks_csv @ [the (parseCompletedGoogleSheetCSV_line ''7,Bob'')]) \<and>
   status (the (parseGoogleSheetCSV_line ''1,01/01/24,,Task Completed'')) = Closed \<and>
   step (the (parseGoogleSheetCSV_line ''1,01/01/24,,Task Completed'')) = ''Task '' @ ''Complete'' @ ''d'' \<and>
   step (the (parseCompletedGoogleSheetCSV_line ''7,Bob'')) = ''Closed'' \<and>
   status (the (parseCompletedGoogleSheetCSV_line ''7,Bob'')) = Closed"
proof -
  let ?r1 = "the (parseGoogleSheetCSV_line ''1,01/01/24,,Task Completed'')"
  let ?r7 = "the (parseCompletedGoogleSheetCSV_line ''7,Bob'')"
  have f: "fetchData ex_tasks_csv ex_completed_csv = Inr (parseGoogleSheetCSV ex_tasks_csv @ [?r7])"
    by code_simp
  have m1: "?r1 \<in> set (parseGoogleSheetCSV ex_tasks_csv @ [?r7])" by code_simp
  have m7: "?r7 \<in> set (parseGoogleSheetCSV ex_tasks_csv @ [?r7])" by simp
  have s1: "step ?r1 = ''Task '' @ ''Complete'' @ ''d''" by code_simp
  have n1: "step ?r1 \<noteq> ''Closed''" by code_simp
  have n7: "status ?r7 \<noteq> getStatus (step ?r7)" by code_simp
  from unified_status [OF f m1] n1 have "status ?r1 = Closed \<longleftrightarrow>
     (\<exists>pre mid post. step ?r1 = pre @ mid @ post \<and> toLowerCase mid = ''complete'')"
    by blast
  moreover have "toLowerCase ''Complete'' = ''complete''" by code_simp
  ultimately have "status ?r1 = Closed" using s1 by blast
  moreover from unified_status [OF f m7] n7 have "step ?r7 = ''Closed'' \<and> status ?r7 = Closed"
    by blast
  ultimately show ?thesis using f s1 by blast
qed

section \<open>Reconciliation\<close>

text \<open>
  C2. The reconciled collection is all of \<open>P\<close> in order, followed by exactly the records of
  \<open>S\<close> whose id is the id of no record of \<open>P\<close>, in the order of \<open>S\<close>; for an id that
  occurs in \<open>P\<close>, the records of the result with that id are those of \<open>P\<close> and no others.
\<close>

theorem reconcile_primary_first:
  "take (length P) (reconcile P S) = P \<and>
   drop (length P) (reconcile P S) = filter (\<lambda>s. \<forall>p \<in> set P. id_c p \<noteq> id_c s) S \<and>
   (\<forall>p \<in> set P. filter (\<lambda>r. id_c r = id_c p) (reconcile P S) = filter (\<lambda>r. id_c r = id_c p) P)"
proof -
  have k: "(\<lambda>t. id_c t \<notin> set (map id_c P)) = (\<lambda>s. \<forall>p \<in> set P. id_c p \<noteq> id_c s)"
    by force
  have eq: "reconcile P S = P @ filter (\<lambda>s. \<forall>p \<in> set P. id_c p \<noteq> id_c s) S"
    by (simp only: reconcile_def Let_def k)
  have "filter (\<lambda>r. id_c r = id_c p) (filter (\<lambda>s. \<forall>p \<in> set P. id_c p \<noteq> id_c s) S) = []" if "p \<in> set P" for p
    using that by (auto simp: filter_empty_conv)
  with eq show ?thesis by simp
qed

theorem reconcile_primary_first_witness:
  "hd (parseGoogleSheetCSV ex_tasks_csv) \<in> set (parseGoogleSheetCSV ex_tasks_csv) \<and>
   id_c (hd (parseGoogleSheetCSV ex_tasks_csv)) = ''1'' \<and>
   map id_c (parseCompletedGoogleSheetCSV ex_completed_csv) = [''1'', ''7''] \<and>
   map id_c (drop (length (parseGoogleSheetCSV ex_tasks_csv))
      (reconcile (parseGoogleSheetCSV ex_tasks_csv) (parseCompletedGoogleSheetCSV ex_completed_csv))) = [''7''] \<and>
   filter (\<lambda>r. id_c r = ''1'')
      (reconcile (parseGoogleSheetCSV ex_tasks_csv) (parseCompletedGoogleSheetCSV ex_completed_csv)) =
   filter (\<lambda>r. id_c r = ''1'') (parseGoogleSheetCSV ex_tasks_csv)"
proof -
  let ?P = "parseGoogleSheetCSV ex_tasks_csv"
  let ?S = "parseCompletedGoogleSheetCSV ex_completed_csv"
  have m: "hd ?P \<in> set ?P" by code_simp
  have i: "id_c (hd ?P) = ''1''" by code_simp
  have s: "map id_c ?S = [''1'', ''7'']" by code_simp
  have f: "map id_c (filter (\<lambda>s. \<forall>p \<in> set ?P. id_c p \<noteq> id_c s) ?S) = [''7'']" by code_simp
  note t = reconcile_primary_first [of ?P ?S]
  from t have "drop (length ?P) (reconcile ?P ?S) = filter (\<lambda>s. \<forall>p \<in> set ?P. id_c p \<noteq> id_c s) ?S"
    by (rule conjunct2 [THEN conjunct1])
  with f have d: "map id_c (drop (length ?P) (reconcile ?P ?S)) = [''7'']" by simp
  from t have "\<forall>p \<in> set ?P. filter (\<lambda>r. id_c r = id_c p) (reconcile ?P ?S) = filter (\<lambda>r. id_c r = id_c p) ?P"
    by (rule conjunct2 [THEN conjunct2])
  from this m have "filter (\<lambda>r. id_c r = id_c (hd ?P)) (reconcile ?P ?S) = filter (\<lambda>r. id_c r = id_c (hd ?P)) ?P"
    by (rule bspec)
  then have e: "filter (\<lambda>r. id_c r = ''1'') (reconcile ?P ?S) = filter (\<lambda>r. id_c r = ''1'') ?P"
    by (simp only: i)
  from m i s d e show ?thesis by (intro conjI)
qed

text \<open>
  C3 as stated fails: two data lines of the primary extract with the same id both reach the
  unified collection, as two different records.
\<close>

theorem duplicate_primary_ids_survive:
  "fetchData ''id\<newline>1,a\<newline>1,b'' ''id'' =
     Inr [\<lparr>id_c = ''1'', plannedDate = ''a'', step = [], stepCode = [], fullName = [],
           signature = [], contact = [], country = [], improvementPhotoUrl = [],
           statusLink = [], notes_c = ''N/A'', equipmentName = [], status = InProgress\<rparr>,
          \<lparr>id_c = ''1'', plannedDate = ''b'', step = [], stepCode = [], fullName = [],
           signature = [], contact = [], country = [], improvementPhotoUrl = [],
           statusLink = [], notes_c = ''N/A'', equipmentName = [], status = InProgress\<rparr>]
   \<and> \<not> distinct (map id_c (projr (fetchData ''id\<newline>1,a\<newline>1,b'' ''id'')))"
  by code_simp

lemma reconcile_distinct:
  assumes "distinct (map id_c P)" and "distinct (map id_c S)"
  shows "distinct (map id_c (reconcile P S))"
  using assms by (auto simp: reconcile_def distinct_map_filter intro: rev_image_eqI)

text \<open>
  C3, amended. In the unified collection no record taken from the secondary source has the
  id of a record taken from the primary source; and when no id is repeated within the
  primary-mapped collection and none within the secondary-mapped collection, the unified
  collection holds no two records with the same id.
\<close>

theorem unified_ids_distinct:
  assumes "fetchData t1 t2 = Inr cs"
  shows "(\<forall>i j. i < length (parseGoogleSheetCSV t1) \<and> length (parseGoogleSheetCSV t1) \<le> j \<and> j < length cs
            \<longrightarrow> id_c (cs ! i) \<noteq> id_c (cs ! j)) \<and>
         (distinct (map id_c (parseGoogleSheetCSV t1)) \<and>
          distinct (map id_c (parseCompletedGoogleSheetCSV t2)) \<longrightarrow> distinct (map id_c cs))"
proof -
  let ?P = "parseGoogleSheetCSV t1" and ?S = "parseCompletedGoogleSheetCSV t2"
  let ?U = "filter (\<lambda>t. id_c t \<notin> set (map id_c ?P)) ?S"
  from assms have cs: "cs = ?P @ ?U"
    by (auto simp: fetchData_def reconcile_def split: if_splits)
  have "id_c (cs ! i) \<noteq> id_c (cs ! j)"
    if "i < length ?P" "length ?P \<le> j" "j < length cs" for i j
  proof -
    from that have "cs ! i \<in> set ?P" by (simp add: cs nth_append)
    moreover from that have "cs ! j \<in> set ?U"
      by (simp add: cs nth_append del: set_filter)
    then have "id_c (cs ! j) \<notin> id_c ` set ?P" by simp
    ultimately show ?thesis by (metis imageI)
  qed
  moreover have "distinct (map id_c cs)"
    if "distinct (map id_c ?P)" "distinct (map id_c ?S)"
    using that reconcile_distinct [of ?P ?S] assms by (auto simp: fetchData_def split: if_splits)
  ultimately show ?thesis by blast
qed

theorem unified_ids_distinct_witness:
  "fetchData ex_tasks_csv ex_completed_csv = Inr (projr (fetchData ex_tasks_csv ex_completed_csv)) \<and>
   distinct (map id_c (parseGoogleSheetCSV ex_tasks_csv)) \<and>
   distinct (map id_c (parseCompletedGoogleSheetCSV ex_completed_csv)) \<and>
   map id_c (parseCompletedGoogleSheetCSV ex_completed_csv) = [''1'', ''7''] \<and>
   map id_c (projr (fetchData ex_tasks_csv ex_completed_csv)) = [''1'', ''2'', ''7''] \<and>
   (0::nat) < length (parseGoogleSheetCSV ex_tasks_csv) \<and>
   length (parseGoogleSheetCSV ex_tasks_csv) \<le> 2 \<and>
   2 < length (projr (fetchData ex_tasks_csv ex_completed_csv)) \<and>
   id_c (projr (fetchData ex_tasks_csv ex_completed_csv) ! 0) \<noteq>
     id_c (projr (fetchData ex_tasks_csv ex_completed_csv) ! 2) \<and>
   distinct (map id_c (projr (fetchData ex_tasks_csv ex_completed_csv)))"
proof -
  let ?cs = "projr (fetchData ex_tasks_csv ex_completed_csv)"
  have a: "distinct (map id_c (parseGoogleSheetCSV ex_tasks_csv))" by code_simp
  have b: "distinct (map id_c (parseCompletedGoogleSheetCSV ex_completed_csv))" by code_simp
  have c: "fetchData ex_tasks_csv ex_completed_csv = Inr ?cs" by code_simp
  have s: "map id_c (parseCompletedGoogleSheetCSV ex_completed_csv) = [''1'', ''7'']" by code_simp
  have d: "map id_c ?cs = [''1'', ''2'', ''7'']" by code_simp
  have l: "(0::nat) < length (parseGoogleSheetCSV ex_tasks_csv)"
          "length (parseGoogleSheetCSV ex_tasks_csv) \<le> 2" "2 < length ?cs"
    by code_simp+
  note t = unified_ids_distinct [OF c]
  from t l have n: "id_c (?cs ! 0) \<noteq> id_c (?cs ! 2)" by blast
  from t a b have e: "distinct (map id_c ?cs)" by blast
  from c a b s d l n e show ?thesis by (intro conjI)
qed

section \<open>Filtering and search\<close>












section \<open>The calendar\<close>






lemma DayFromYear_mono: "y \<le> y' \<Longrightarrow> DayFromYear y \<le> DayFromYear y'"
proof (induction y' rule: int_ge_induct)
  case base
  then show ?case by simp
next
  case (step i)
  then show ?case
    using DayFromYear_Suc [of i] DaysInYear_cases [of i] by auto
qed

lemma DayFromYear_strict: "y < y' \<Longrightarrow> DayFromYear y < DayFromYear y'"
  using DayFromYear_mono [of "y + 1" y'] DayFromYear_Suc [of y] DaysInYear_cases [of y] by auto















section \<open>Date parsing\<close>













section \<open>Sorting\<close>























end
